theory Spec2Isabelle
  imports Complex_Main "HOL-Library.Sublist" "HOL-Library.Product_Lexorder"
begin

section \<open>CSV geolocator: the candidate search of \<open>CSVGeolocator._geolocate\<close>\<close>

text \<open>
  The development embeds the method \<open>_geolocate\<close> of \<open>src/CSV_geolocator.py\<close>
  (lines 90 to 172): the construction of the candidate addresses (lines 120 to 125),
  the search loop over them (lines 128 to 168) and the code after the loop
  (lines 169 to 172).
\<close>

subsection \<open>Data\<close>

text \<open>
  Python floats are only stored, copied and returned by \<open>_geolocate\<close>, never computed
  with; \<open>NaN\<close> is \<open>float('nan')\<close>.
\<close>

datatype pyfloat = Num real | NaN

type_synonym coords = "pyfloat \<times> pyfloat"

text \<open>
  What \<open>self.gmaps_client.geocode(attempted_address, **gmaps_kwargs)\<close> does: it raises
  (transport or API failure) or returns a list of results, of which the code reads the
  location of the first one only.
\<close>

datatype reply = Raises | Results "coords list"

text \<open>
  The geocoding service is outside the program. It is a parameter of the model: a function
  of the queries issued before (oldest first) and of the current query, so that it may
  answer the same query differently at different times. The keyword arguments
  \<open>region\<close> and \<open>bounds\<close> are built from \<open>self.search_options\<close>, which
  \<open>_geolocate\<close> never changes; they are part of the parameter.
\<close>

type_synonym provider = "string list \<Rightarrow> string \<Rightarrow> reply"

text \<open>
  The fields of \<open>self\<close> that \<open>_geolocate\<close> reads and writes: the positive cache
  (a dict from composite address to a pair of floats) and the negative cache (a list).
  \<open>queries\<close> is the log of the calls made to the provider, oldest first; it is not a
  field of the class, it records the effect of line 156.
\<close>

record geolocator =
  discovered_addrs :: "string \<rightharpoonup> coords"
  no_result_list :: "string list"
  queries :: "string list"

datatype error = UnboundLocalError | ProviderError

subsection \<open>Candidate addresses (lines 120 to 125)\<close>

text \<open>
  \<open>itertools.combinations(xs, r)\<close>: the \<open>r\<close>-length tuples of elements of \<open>xs\<close>,
  in lexicographic order of the positions they are taken from.
\<close>

fun combinations :: "'a list \<Rightarrow> nat \<Rightarrow> 'a list list" where
  "combinations xs 0 = [[]]"
| "combinations [] (Suc r) = []"
| "combinations (x # xs) (Suc r) = map ((#) x) (combinations xs r) @ combinations xs (Suc r)"

text \<open>
  \<open>addr_snips.index(x)\<close>: the first position of \<open>x\<close>. Python raises ValueError when
  \<open>x\<close> is absent (here the result is the length of the list); line 122 only asks for
  members of tuples drawn from \<open>addr_snips\<close>.
\<close>

fun index :: "'a list \<Rightarrow> 'a \<Rightarrow> nat" where
  "index [] x = 0"
| "index (y # ys) x = (if y = x then 0 else Suc (index ys x))"

text \<open>
  \<open>min\<close> and \<open>max\<close> of a list of positions. Python raises ValueError on the empty
  list (here the result is 0); the tuples of line 121 have \<open>depth + 1 \<ge> 1\<close> members.
\<close>

fun min_of :: "nat list \<Rightarrow> nat" where
  "min_of [] = 0"
| "min_of [x] = x"
| "min_of (x # y # ys) = min x (min_of (y # ys))"

fun max_of :: "nat list \<Rightarrow> nat" where
  "max_of [] = 0"
| "max_of [x] = x"
| "max_of (x # y # ys) = max x (max_of (y # ys))"

text \<open>The sort key of lines 122 and 123; Python compares the pairs lexicographically.\<close>

definition sort_key_of :: "'a list \<Rightarrow> 'a list \<Rightarrow> nat \<times> nat" where
  "sort_key_of addr_snips snips =
     (min_of (map (index addr_snips) snips), max_of (map (index addr_snips) snips))"

text \<open>\<open>", ".join(snips_list)\<close>, with the separator as a parameter.\<close>

fun join :: "string \<Rightarrow> string list \<Rightarrow> string" where
  "join sep [] = []"
| "join sep [x] = x"
| "join sep (x # y # ys) = x @ sep @ join sep (y # ys)"

text \<open>
  Lines 120 and 121: \<open>range(search_depth)\<close> is empty for \<open>search_depth \<le> 0\<close>, and
  \<open>combinations\<close> yields nothing when asked for more members than the list has.
\<close>

definition snippet_tuples :: "int \<Rightarrow> 'a list \<Rightarrow> 'a list list" where
  "snippet_tuples search_depth addr_snips =
     concat (map (\<lambda>depth. combinations addr_snips (depth + 1)) [0..<nat search_depth])"

text \<open>Lines 122 and 123: \<open>list.sort\<close> is stable, as \<open>sort_key\<close> is.\<close>

definition sorted_tuples :: "int \<Rightarrow> 'a list \<Rightarrow> 'a list list" where
  "sorted_tuples search_depth addr_snips =
     sort_key (sort_key_of addr_snips) (snippet_tuples search_depth addr_snips)"

text \<open>Line 125: the candidate sequence.\<close>

definition composed_addresses :: "int \<Rightarrow> string list \<Rightarrow> string list" where
  "composed_addresses search_depth addr_snips =
     map (join '', '') (sorted_tuples search_depth addr_snips)"

subsection \<open>The search loop (lines 128 to 168)\<close>

definition fallback_warning :: string where
  "fallback_warning = ''WARNING: Using fallbacks, loss of fidelity!''"

definition no_result_warning :: "string \<Rightarrow> string" where
  "no_result_warning attempted_address =
     ''No result found for '' @ [CHR 0x27] @ attempted_address @ [CHR 0x27] @ ''; ''"

text \<open>
  Line 131: \<open>attempt_index > 2 ** (len(addr_snips) - 1)\<close>. For an empty snippet list
  Python computes \<open>2 ** -1 = 0.5\<close>.
\<close>

definition past_threshold :: "nat \<Rightarrow> nat \<Rightarrow> bool" where
  "past_threshold attempt_index n =
     (if n = 0 then 0 < attempt_index else 2 ^ (n - 1) < attempt_index)"

text \<open>Lines 131 and 132: what the warning is after the check.\<close>

definition fidelity_check :: "nat \<Rightarrow> nat \<Rightarrow> string \<Rightarrow> string" where
  "fidelity_check attempt_index n warnings =
     (if past_threshold attempt_index n then warnings @ fallback_warning else warnings)"

text \<open>
  How the loop body, and the \<open>for\<close> loop, can end: by one of the two \<open>return\<close>
  statements, by an exception of the provider, or normally (the body reaches its end or
  \<open>continue\<close>; the loop runs out of candidates), with the warnings so far.
\<close>

datatype loop_exit = Returned "pyfloat \<times> pyfloat \<times> string" | Raised error | Completed string

text \<open>
  Lines 135 to 168: one candidate, after the check of lines 131 and 132. The construction
  of \<open>gmaps_kwargs\<close> (lines 145 to 155) is part of the provider.
\<close>

definition attempt :: "provider \<Rightarrow> string \<Rightarrow> string \<Rightarrow> geolocator \<Rightarrow> loop_exit \<times> geolocator" where
  "attempt geocode attempted_address warnings self =
     (case discovered_addrs self attempted_address of
        Some (lat, lng) \<Rightarrow> (Returned (lat, lng, warnings), self)
      | None \<Rightarrow>
          if attempted_address \<in> set (no_result_list self)
          then (Completed warnings, self)
          else
            (let geocode_result = geocode (queries self) attempted_address;
                 self = self\<lparr>queries := queries self @ [attempted_address]\<rparr>
             in case geocode_result of
                  Raises \<Rightarrow> (Raised ProviderError, self)
                | Results [] \<Rightarrow>
                    (Completed (warnings @ no_result_warning attempted_address),
                     self\<lparr>no_result_list := no_result_list self @ [attempted_address]\<rparr>)
                | Results (location # _) \<Rightarrow>
                    (Returned (fst location, snd location, warnings),
                     self\<lparr>discovered_addrs :=
                       (discovered_addrs self)(attempted_address \<mapsto> location)\<rparr>)))"

text \<open>
  The loop over \<open>enumerate(composed_addresses)\<close>, from position \<open>attempt_index\<close> on;
  \<open>n\<close> is \<open>len(addr_snips)\<close>.
\<close>

fun search_loop ::
  "provider \<Rightarrow> nat \<Rightarrow> nat \<Rightarrow> string list \<Rightarrow> string \<Rightarrow> geolocator \<Rightarrow> loop_exit \<times> geolocator"
where
  "search_loop geocode n attempt_index [] warnings self = (Completed warnings, self)"
| "search_loop geocode n attempt_index (attempted_address # rest) warnings self =
     (case attempt geocode attempted_address (fidelity_check attempt_index n warnings) self of
        (Completed warnings, self) \<Rightarrow> search_loop geocode n (Suc attempt_index) rest warnings self
      | (Returned result, self) \<Rightarrow> (Returned result, self)
      | (Raised e, self) \<Rightarrow> (Raised e, self))"

subsection \<open>\<open>_geolocate\<close>\<close>

text \<open>
  After the loop (lines 169 to 172) \<open>attempted_address\<close> is the last candidate; when
  there was no candidate the name was never bound and line 171 raises UnboundLocalError.
\<close>

definition after_loop :: "string list \<Rightarrow> loop_exit \<times> geolocator \<Rightarrow>
    (error + pyfloat \<times> pyfloat \<times> string) \<times> geolocator" where
  "after_loop candidates exit =
     (case exit of
        (Returned result, self) \<Rightarrow> (Inr result, self)
      | (Raised e, self) \<Rightarrow> (Inl e, self)
      | (Completed warnings, self) \<Rightarrow>
          (case candidates of
             [] \<Rightarrow> (Inl UnboundLocalError, self)
           | _ \<Rightarrow> (Inr (NaN, NaN, warnings @ ''Search Failed!;''),
                   self\<lparr>no_result_list := no_result_list self @ [last candidates]\<rparr>)))"

definition geolocate ::
  "provider \<Rightarrow> int \<Rightarrow> string list \<Rightarrow> geolocator \<Rightarrow> (error + pyfloat \<times> pyfloat \<times> string) \<times> geolocator"
where
  "geolocate geocode search_depth addr_snips self =
     (let candidates = composed_addresses search_depth addr_snips in
      after_loop candidates (search_loop geocode (length addr_snips) 0 candidates [] self))"

subsection \<open>Reading a warning\<close>

text \<open>
  The number of positions of a text at which a (non-empty) pattern occurs; it is used to
  say how often the fallback warning is found in a returned warning.
\<close>

fun occurrences :: "string \<Rightarrow> string \<Rightarrow> nat" where
  "occurrences pattern [] = 0"
| "occurrences pattern (c # cs) =
     (if prefix pattern (c # cs) then 1 else 0) + occurrences pattern cs"

section \<open>The search loop, one candidate at a time\<close>

text \<open>The five ways through the loop body (lines 131 to 168).\<close>

lemma search_loop_hit:
  "discovered_addrs self a = Some (lat, lng) \<Longrightarrow>
   search_loop geocode n i (a # rest) w self = (Returned (lat, lng, fidelity_check i n w), self)"
  by (simp add: attempt_def)

lemma search_loop_skip:
  "discovered_addrs self a = None \<Longrightarrow> a \<in> set (no_result_list self) \<Longrightarrow>
   search_loop geocode n i (a # rest) w self =
   search_loop geocode n (Suc i) rest (fidelity_check i n w) self"
  by (simp add: attempt_def)

lemma search_loop_raises:
  "discovered_addrs self a = None \<Longrightarrow> a \<notin> set (no_result_list self) \<Longrightarrow>
   geocode (queries self) a = Raises \<Longrightarrow>
   search_loop geocode n i (a # rest) w self =
   (Raised ProviderError, self\<lparr>queries := queries self @ [a]\<rparr>)"
  by (simp add: attempt_def)

lemma search_loop_no_result:
  "discovered_addrs self a = None \<Longrightarrow> a \<notin> set (no_result_list self) \<Longrightarrow>
   geocode (queries self) a = Results [] \<Longrightarrow>
   search_loop geocode n i (a # rest) w self =
   search_loop geocode n (Suc i) rest (fidelity_check i n w @ no_result_warning a)
     (self\<lparr>queries := queries self @ [a], no_result_list := no_result_list self @ [a]\<rparr>)"
  by (simp add: attempt_def)

lemma search_loop_found:
  "discovered_addrs self a = None \<Longrightarrow> a \<notin> set (no_result_list self) \<Longrightarrow>
   geocode (queries self) a = Results (loc # others) \<Longrightarrow>
   search_loop geocode n i (a # rest) w self =
   (Returned (fst loc, snd loc, fidelity_check i n w),
    self\<lparr>queries := queries self @ [a], discovered_addrs := (discovered_addrs self)(a \<mapsto> loc)\<rparr>)"
  by (simp add: attempt_def)

text \<open>Case analysis of one iteration, for the inductions over the candidates.\<close>

lemma search_loop_cases [case_names hit skip raises no_result found]:
  assumes "\<And>lat lng. discovered_addrs self a = Some (lat, lng) \<Longrightarrow> P"
    and "discovered_addrs self a = None \<Longrightarrow> a \<in> set (no_result_list self) \<Longrightarrow> P"
    and "discovered_addrs self a = None \<Longrightarrow> a \<notin> set (no_result_list self) \<Longrightarrow>
         geocode (queries self) a = Raises \<Longrightarrow> P"
    and "discovered_addrs self a = None \<Longrightarrow> a \<notin> set (no_result_list self) \<Longrightarrow>
         geocode (queries self) a = Results [] \<Longrightarrow> P"
    and "\<And>loc others. discovered_addrs self a = None \<Longrightarrow> a \<notin> set (no_result_list self) \<Longrightarrow>
         geocode (queries self) a = Results (loc # others) \<Longrightarrow> P"
  shows P
proof (cases "discovered_addrs self a")
  case (Some loc)
  with assms(1) show ?thesis by (cases loc) simp
next
  case None
  show ?thesis
  proof (cases "a \<in> set (no_result_list self)")
    case True
    with None assms(2) show ?thesis by simp
  next
    case False
    show ?thesis
    proof (cases "geocode (queries self) a")
      case Raises
      with None False assms(3) show ?thesis by simp
    next
      case (Results locs)
      with None False assms(4,5) show ?thesis by (cases locs) simp_all
    qed
  qed
qed

declare search_loop.simps(2) [simp del]

subsection \<open>Both caches only grow\<close>

lemma search_loop_frame:
  "search_loop geocode n i cs w self = (r, self') \<Longrightarrow>
   discovered_addrs self \<subseteq>\<^sub>m discovered_addrs self' \<and>
   prefix (no_result_list self) (no_result_list self') \<and>
   prefix (queries self) (queries self')"
proof (induction cs arbitrary: i w self)
  case Nil
  then show ?case by simp
next
  case (Cons a cs)
  show ?case
  proof (cases rule: search_loop_cases[where self = self and a = a and geocode = geocode])
    case (hit lat lng)
    with Cons.prems show ?thesis by (simp add: search_loop_hit)
  next
    case skip
    with Cons.prems Cons.IH show ?thesis by (simp add: search_loop_skip)
  next
    case raises
    with Cons.prems show ?thesis by (auto simp: search_loop_raises)
  next
    case no_result
    with Cons.prems
    have "search_loop geocode n (Suc i) cs (fidelity_check i n w @ no_result_warning a)
       (self\<lparr>queries := queries self @ [a], no_result_list := no_result_list self @ [a]\<rparr>)
       = (r, self')"
      by (simp add: search_loop_no_result)
    from Cons.IH[OF this] show ?thesis
      by (auto dest: append_prefixD)
  next
    case (found loc others)
    with Cons.prems show ?thesis
      by (auto simp: search_loop_found map_le_def)
  qed
qed

subsection \<open>No snippets\<close>

lemma snippet_tuples_Nil: "snippet_tuples d [] = []"
  by (simp add: snippet_tuples_def)

lemma composed_addresses_Nil: "composed_addresses d [] = []"
  by (simp add: composed_addresses_def sorted_tuples_def snippet_tuples_Nil)

text \<open>
  Claim C7. For a row with no snippet the candidate sequence is empty, and the claim has
  \<open>_geolocate\<close> end normally with the unknown-coordinate result. The code does not:
  the loop body never runs, line 171 reads \<open>attempted_address\<close>, which was never
  bound, and the call raises UnboundLocalError, whatever the depth, the provider and the
  caches; the caches are left as they were.
\<close>

theorem geolocate_no_snippets_raises:
  "composed_addresses search_depth [] = [] \<and>
   geolocate geocode search_depth [] self = (Inl UnboundLocalError, self)"
  by (simp add: geolocate_def after_loop_def composed_addresses_Nil)

text \<open>
  Claim C10. A call of \<open>_geolocate\<close>, however it ends, keeps every entry of the
  positive cache with its coordinates and keeps the negative cache as a prefix of the new
  one: nothing is removed or changed, both caches only grow.
\<close>

theorem geolocate_frame:
  "(\<forall>addr loc. discovered_addrs self addr = Some loc \<longrightarrow>
      discovered_addrs (snd (geolocate geocode search_depth addr_snips self)) addr = Some loc) \<and>
   prefix (no_result_list self)
     (no_result_list (snd (geolocate geocode search_depth addr_snips self)))"
proof -
  let ?cs = "composed_addresses search_depth addr_snips"
  obtain r s where rs: "search_loop geocode (length addr_snips) 0 ?cs [] self = (r, s)"
    by (cases "search_loop geocode (length addr_snips) 0 ?cs [] self")
  from search_loop_frame[OF rs]
  have "discovered_addrs self \<subseteq>\<^sub>m discovered_addrs (snd (geolocate geocode search_depth addr_snips self))
    \<and> prefix (no_result_list self)
     (no_result_list (snd (geolocate geocode search_depth addr_snips self)))"
    using rs by (cases r; cases ?cs) (auto simp: geolocate_def after_loop_def)
  then show ?thesis
    by (auto simp: map_le_def dom_def)
qed

lemmas run_simps =
  geolocate_def after_loop_def attempt_def composed_addresses_def sorted_tuples_def snippet_tuples_def sort_key_of_def
  search_loop.simps fidelity_check_def past_threshold_def no_result_warning_def
  fallback_warning_def Let_def upt_rec

theorem geolocate_frame_witness:
  "discovered_addrs \<lparr>discovered_addrs = [''a'' \<mapsto> (Num 1, Num 2)], no_result_list = [''c''],
      queries = []\<rparr> ''a'' = Some (Num 1, Num 2) \<and>
   discovered_addrs (snd (geolocate (\<lambda>h q. if q = ''d'' then Results [(Num 3, Num 4)] else Results [])
      1 [''b'', ''d'']
      \<lparr>discovered_addrs = [''a'' \<mapsto> (Num 1, Num 2)], no_result_list = [''c''], queries = []\<rparr>))
      ''a'' = Some (Num 1, Num 2) \<and>
   prefix [''c''] (no_result_list (snd (geolocate
      (\<lambda>h q. if q = ''d'' then Results [(Num 3, Num 4)] else Results [])
      1 [''b'', ''d'']
      \<lparr>discovered_addrs = [''a'' \<mapsto> (Num 1, Num 2)], no_result_list = [''c''], queries = []\<rparr>))) \<and>
   snd (geolocate (\<lambda>h q. if q = ''d'' then Results [(Num 3, Num 4)] else Results [])
      1 [''b'', ''d'']
      \<lparr>discovered_addrs = [''a'' \<mapsto> (Num 1, Num 2)], no_result_list = [''c''], queries = []\<rparr>)
   = \<lparr>discovered_addrs = [''a'' \<mapsto> (Num 1, Num 2), ''d'' \<mapsto> (Num 3, Num 4)],
      no_result_list = [''c'', ''b''], queries = [''b'', ''d'']\<rparr>"
  using geolocate_frame[of
      "\<lparr>discovered_addrs = [''a'' \<mapsto> (Num 1, Num 2)], no_result_list = [''c''], queries = []\<rparr>"
      "\<lambda>h q. if q = ''d'' then Results [(Num 3, Num 4)] else Results []" 1 "[''b'', ''d'']"]
  by (simp add: run_simps)

subsection \<open>The loop over a concatenation, and what each exit says about the caches\<close>

lemma search_loop_append:
  "search_loop geocode n i (pre @ post) w self =
   (case search_loop geocode n i pre w self of
      (Completed w', self') \<Rightarrow> search_loop geocode n (i + length pre) post w' self'
    | (Returned result, self') \<Rightarrow> (Returned result, self')
    | (Raised e, self') \<Rightarrow> (Raised e, self'))"
proof (induction pre arbitrary: i w self)
  case Nil
  show ?case by simp
next
  case (Cons a pre)
  obtain x s1 where at: "attempt geocode a (fidelity_check i n w) self = (x, s1)"
    by (cases "attempt geocode a (fidelity_check i n w) self")
  show ?case
    using at Cons.IH[of "Suc i" _ s1]
    by (cases x) (auto simp: search_loop.simps(2) split: prod.splits loop_exit.splits)
qed

lemma search_loop_reach:
  "search_loop geocode n i pre w self = (Completed w1, self1) \<Longrightarrow>
   search_loop geocode n i (pre @ post) w self = search_loop geocode n (i + length pre) post w1 self1"
  by (simp add: search_loop_append)

text \<open>An address of the negative cache is never added to the positive cache.\<close>

lemma search_loop_negative_stays:
  "search_loop geocode n i cs w self = (r, self') \<Longrightarrow> x \<in> set (no_result_list self) \<Longrightarrow>
   discovered_addrs self' x = discovered_addrs self x"
proof (induction cs arbitrary: i w self)
  case Nil
  then show ?case by simp
next
  case (Cons a cs)
  show ?case
  proof (cases rule: search_loop_cases[where self = self and a = a and geocode = geocode])
    case (hit lat lng)
    with Cons.prems show ?thesis by (simp add: search_loop_hit)
  next
    case skip
    with Cons.prems Cons.IH show ?thesis by (simp add: search_loop_skip)
  next
    case raises
    with Cons.prems show ?thesis by (auto simp: search_loop_raises)
  next
    case no_result
    with Cons.prems
    have "search_loop geocode n (Suc i) cs (fidelity_check i n w @ no_result_warning a)
       (self\<lparr>queries := queries self @ [a], no_result_list := no_result_list self @ [a]\<rparr>)
       = (r, self')"
      by (simp add: search_loop_no_result)
    from Cons.IH[OF this] Cons.prems(2) show ?thesis
      by simp
  next
    case (found loc others)
    with Cons.prems show ?thesis
      by (auto simp: search_loop_found)
  qed
qed

lemma search_loop_Completed:
  "search_loop geocode n i cs w self = (Completed w', self') \<Longrightarrow>
   set cs \<subseteq> set (no_result_list self') \<and> (\<forall>x \<in> set cs. discovered_addrs self' x = None) \<and>
   discovered_addrs self' = discovered_addrs self"
proof (induction cs arbitrary: i w self)
  case Nil
  then show ?case by simp
next
  case (Cons a cs)
  show ?case
  proof (cases rule: search_loop_cases[where self = self and a = a and geocode = geocode])
    case (hit lat lng)
    with Cons.prems show ?thesis by (simp add: search_loop_hit)
  next
    case skip
    with Cons.prems have rest: "search_loop geocode n (Suc i) cs (fidelity_check i n w) self = (Completed w', self')"
      by (simp add: search_loop_skip)
    from search_loop_frame[OF rest] skip have "a \<in> set (no_result_list self')"
      using set_mono_prefix by blast
    moreover from Cons.IH[OF rest] have "set cs \<subseteq> set (no_result_list self')"
      "\<forall>x \<in> set cs. discovered_addrs self' x = None" "discovered_addrs self' = discovered_addrs self"
      by blast+
    ultimately show ?thesis using skip by simp
  next
    case raises
    with Cons.prems show ?thesis by (auto simp: search_loop_raises)
  next
    case no_result
    with Cons.prems
    have rest: "search_loop geocode n (Suc i) cs (fidelity_check i n w @ no_result_warning a)
       (self\<lparr>queries := queries self @ [a], no_result_list := no_result_list self @ [a]\<rparr>)
       = (Completed w', self')"
      by (simp add: search_loop_no_result)
    from search_loop_frame[OF rest] have "a \<in> set (no_result_list self')"
      using set_mono_prefix by fastforce
    moreover from Cons.IH[OF rest] have "set cs \<subseteq> set (no_result_list self')"
      "\<forall>x \<in> set cs. discovered_addrs self' x = None"
      by blast+
    moreover from Cons.IH[OF rest] have "discovered_addrs self' = discovered_addrs self"
      by simp
    ultimately show ?thesis using no_result by simp
  next
    case (found loc others)
    with Cons.prems show ?thesis
      by (auto simp: search_loop_found)
  qed
qed

lemma search_loop_Returned:
  "search_loop geocode n i cs w self = (Returned (lat, lng, w'), self') \<Longrightarrow>
   \<exists>pre a post. cs = pre @ a # post \<and> set pre \<subseteq> set (no_result_list self') \<and>
     (\<forall>x \<in> set pre. discovered_addrs self' x = None) \<and>
     discovered_addrs self' a = Some (lat, lng)"
proof (induction cs arbitrary: i w self)
  case Nil
  then show ?case by simp
next
  case (Cons a cs)
  show ?case
  proof (cases rule: search_loop_cases[where self = self and a = a and geocode = geocode])
    case (hit lat' lng')
    with Cons.prems have "discovered_addrs self' a = Some (lat, lng)" by (simp add: search_loop_hit)
    then show ?thesis by (intro exI[of _ "[]"] exI[of _ a] exI[of _ cs]) simp 
  next
    case skip
    with Cons.prems have rest: "search_loop geocode n (Suc i) cs (fidelity_check i n w) self = (Returned (lat, lng, w'), self')"
      by (simp add: search_loop_skip)
    from search_loop_frame[OF rest] skip have in': "a \<in> set (no_result_list self')"
      using set_mono_prefix by blast
    from search_loop_negative_stays[OF rest skip(2)] skip have none': "discovered_addrs self' a = None" by simp
    from Cons.IH[OF rest] obtain pre b post where
      "cs = pre @ b # post" "set pre \<subseteq> set (no_result_list self')"
      "\<forall>x \<in> set pre. discovered_addrs self' x = None" "discovered_addrs self' b = Some (lat, lng)"
      by blast
    with in' none' show ?thesis
      by (intro exI[of _ "a # pre"] exI[of _ b] exI[of _ post]) simp
  next
    case raises
    with Cons.prems show ?thesis by (auto simp: search_loop_raises)
  next
    case no_result
    let ?s1 = "self\<lparr>queries := queries self @ [a], no_result_list := no_result_list self @ [a]\<rparr>"
    from no_result Cons.prems
    have rest: "search_loop geocode n (Suc i) cs (fidelity_check i n w @ no_result_warning a) ?s1
       = (Returned (lat, lng, w'), self')"
      by (simp add: search_loop_no_result)
    from search_loop_frame[OF rest] have in': "a \<in> set (no_result_list self')"
      using set_mono_prefix by fastforce
    have "a \<in> set (no_result_list ?s1)" by simp
    from search_loop_negative_stays[OF rest this] no_result
    have none': "discovered_addrs self' a = None" by simp
    from Cons.IH[OF rest] obtain pre b post where
      "cs = pre @ b # post" "set pre \<subseteq> set (no_result_list self')"
      "\<forall>x \<in> set pre. discovered_addrs self' x = None" "discovered_addrs self' b = Some (lat, lng)"
      by blast
    with in' none' show ?thesis
      by (intro exI[of _ "a # pre"] exI[of _ b] exI[of _ post]) simp
  next
    case (found loc others)
    with Cons.prems have "discovered_addrs self' a = Some (lat, lng)"
      by (auto simp: search_loop_found)
    then show ?thesis by (intro exI[of _ "[]"] exI[of _ a] exI[of _ cs]) simp 
  qed
qed

text \<open>Candidates known to fail are skipped without any change of state.\<close>

lemma search_loop_all_skipped:
  "set cs \<subseteq> set (no_result_list self) \<Longrightarrow> \<forall>x \<in> set cs. discovered_addrs self x = None \<Longrightarrow>
   \<exists>w'. search_loop geocode n i cs w self = (Completed w', self)"
proof (induction cs arbitrary: i w)
  case Nil
  show ?case by simp
next
  case (Cons a cs)
  then show ?case by (simp add: search_loop_skip)
qed

subsection \<open>\<open>_geolocate\<close> as loop and epilogue\<close>

lemma geolocate_unfold:
  "geolocate geocode search_depth addr_snips self =
   after_loop (composed_addresses search_depth addr_snips)
     (search_loop geocode (length addr_snips) 0 (composed_addresses search_depth addr_snips) [] self)"
  by (simp add: geolocate_def Let_def)

lemma after_loop_Completed:
  "cs \<noteq> [] \<Longrightarrow> after_loop cs (Completed w, self) =
     (Inr (NaN, NaN, w @ ''Search Failed!;''), self\<lparr>no_result_list := no_result_list self @ [last cs]\<rparr>)"
  by (cases cs) (simp_all add: after_loop_def)

lemma after_loop_Completed_Nil: "after_loop [] (Completed w, self) = (Inl UnboundLocalError, self)"
  by (simp add: after_loop_def)

lemma after_loop_Returned: "after_loop cs (Returned res, self) = (Inr res, self)"
  by (simp add: after_loop_def)

lemma after_loop_Raised: "after_loop cs (Raised e, self) = (Inl e, self)"
  by (simp add: after_loop_def)

lemmas after_loop_simps = after_loop_Completed after_loop_Completed_Nil after_loop_Returned after_loop_Raised

lemma geolocate_reach:
  assumes "composed_addresses search_depth addr_snips = pre @ a # post"
    and "search_loop geocode (length addr_snips) 0 pre [] self = (Completed w1, self1)"
  shows "geolocate geocode search_depth addr_snips self =
    after_loop (pre @ a # post)
      (search_loop geocode (length addr_snips) (length pre) (a # post) w1 self1)"
  using assms by (simp add: geolocate_unfold search_loop_reach)

text \<open>
  Claim C3. When the loop reaches a candidate (after the candidates \<open>pre\<close>, in state
  \<open>self1\<close> with warnings \<open>w1\<close>) that is in the negative cache and not in the
  positive cache, the body for that candidate ends normally and leaves the state as it is,
  the log of provider calls included; the warnings are those left by the check of line 131,
  with no "No result found" message; and the call goes on with the next candidate.
\<close>

theorem negative_cache_skip:
  assumes "composed_addresses search_depth addr_snips = pre @ a # post"
    and "search_loop geocode (length addr_snips) 0 pre [] self = (Completed w1, self1)"
    and "a \<in> set (no_result_list self1)" and "discovered_addrs self1 a = None"
  shows "attempt geocode a (fidelity_check (length pre) (length addr_snips) w1) self1 =
      (Completed (fidelity_check (length pre) (length addr_snips) w1), self1) \<and>
    geolocate geocode search_depth addr_snips self =
      after_loop (pre @ a # post)
        (search_loop geocode (length addr_snips) (Suc (length pre)) post
           (fidelity_check (length pre) (length addr_snips) w1) self1)"
  using assms(3,4) geolocate_reach[OF assms(1,2)]
  by (simp add: attempt_def search_loop_skip)

theorem negative_cache_skip_witness:
  "composed_addresses 2 [''a'', ''b''] = [''a''] @ ''a, b'' # [''b''] \<and>
   search_loop (\<lambda>h q. Results []) (length [''a'', ''b'']) 0 [''a''] []
     \<lparr>discovered_addrs = Map.empty, no_result_list = [''a, b''], queries = []\<rparr> =
     (Completed (no_result_warning ''a''),
      \<lparr>discovered_addrs = Map.empty, no_result_list = [''a, b'', ''a''], queries = [''a'']\<rparr>) \<and>
   ''a, b'' \<in> set (no_result_list
      \<lparr>discovered_addrs = Map.empty, no_result_list = [''a, b'', ''a''], queries = [''a'']\<rparr>) \<and>
   discovered_addrs
      \<lparr>discovered_addrs = Map.empty, no_result_list = [''a, b'', ''a''], queries = [''a'']\<rparr>
      ''a, b'' = None \<and>
   geolocate (\<lambda>h q. Results []) 2 [''a'', ''b'']
     \<lparr>discovered_addrs = Map.empty, no_result_list = [''a, b''], queries = []\<rparr> =
     (Inr (NaN, NaN, no_result_warning ''a'' @ no_result_warning ''b'' @ ''Search Failed!;''),
      \<lparr>discovered_addrs = Map.empty, no_result_list = [''a, b'', ''a'', ''b'', ''b''],
        queries = [''a'', ''b'']\<rparr>)"
proof -
  let ?g = "\<lambda>(h::string list) (q::string). Results []"
  let ?s = "\<lparr>discovered_addrs = Map.empty, no_result_list = [''a, b''], queries = []\<rparr>"
  let ?s1 = "\<lparr>discovered_addrs = Map.empty, no_result_list = [''a, b'', ''a''], queries = [''a'']\<rparr>"
  have h1: "composed_addresses 2 [''a'', ''b''] = [''a''] @ ''a, b'' # [''b'']"
    by (simp add: run_simps)
  have h2: "search_loop ?g (length [''a'', ''b'']) 0 [''a''] [] ?s = (Completed (no_result_warning ''a''), ?s1)"
    by (simp add: run_simps)
  have h3: "''a, b'' \<in> set (no_result_list ?s1)" by simp
  have h4: "discovered_addrs ?s1 ''a, b'' = None" by simp
  from negative_cache_skip[OF h1 h2 h3 h4] h1 h2 h3 h4 show ?thesis
    by (simp add: search_loop.simps attempt_def fidelity_check_def past_threshold_def after_loop_def)
qed

lemma geolocate_again:
  assumes "geolocate geocode search_depth addr_snips self = (Inr (lat, lng, w), self')"
  shows "\<exists>w' self''. geolocate geocode' search_depth addr_snips self' = (Inr (lat, lng, w'), self'') \<and>
     queries self'' = queries self' \<and> discovered_addrs self'' = discovered_addrs self'"
proof -
  let ?cs = "composed_addresses search_depth addr_snips"
  let ?n = "length addr_snips"
  obtain r s1 where loop: "search_loop geocode ?n 0 ?cs [] self = (r, s1)"
    by (cases "search_loop geocode ?n 0 ?cs [] self")
  show ?thesis
  proof (cases r)
    case (Returned res)
    with loop assms have res: "res = (lat, lng, w)" and s1: "s1 = self'"
      by (simp_all add: geolocate_unfold after_loop_simps)
    from search_loop_Returned[OF loop[unfolded Returned res s1]]
    obtain pre a post where cs: "?cs = pre @ a # post" and
      pre: "set pre \<subseteq> set (no_result_list self')" "\<forall>x \<in> set pre. discovered_addrs self' x = None" and
      a: "discovered_addrs self' a = Some (lat, lng)"
      by blast
    from search_loop_all_skipped[OF pre] obtain w1 where
      "search_loop geocode' ?n 0 pre [] self' = (Completed w1, self')" by blast
    from geolocate_reach[OF cs this] a
    have "geolocate geocode' search_depth addr_snips self' =
      (Inr (lat, lng, fidelity_check (length pre) ?n w1), self')"
      by (simp add: search_loop_hit after_loop_simps)
    then show ?thesis by simp
  next
    case (Raised e)
    with loop assms show ?thesis by (simp add: geolocate_unfold after_loop_simps)
  next
    case (Completed w0)
    with loop assms have ne: "?cs \<noteq> []"
      by (auto simp: geolocate_unfold after_loop_simps)
    with Completed loop assms have coords: "lat = NaN" "lng = NaN"
      and s': "self' = s1\<lparr>no_result_list := no_result_list s1 @ [last ?cs]\<rparr>"
      by (auto simp: geolocate_unfold after_loop_simps)
    from search_loop_Completed[OF loop[unfolded Completed]]
    have "set ?cs \<subseteq> set (no_result_list self')" "\<forall>x \<in> set ?cs. discovered_addrs self' x = None"
      by (auto simp: s')
    from search_loop_all_skipped[OF this] obtain w1 where
      "search_loop geocode' ?n 0 ?cs [] self' = (Completed w1, self')" by blast
    with ne coords show ?thesis
      by (simp add: geolocate_unfold after_loop_simps split: list.splits)
  qed
qed

text \<open>
  Claim C2. First part: when the loop reaches a candidate that is a key of the positive
  cache, \<open>_geolocate\<close> returns the cached coordinates and the warnings accumulated so
  far (after the check of line 131 for this candidate), and the state is the one in which
  the candidate was reached: no provider call is made for it. Second part: after a call
  that returned coordinates (those of a resolved candidate, or the unknown coordinates of
  an exhausted search), a second call for the same snippets, with any provider, returns
  the same coordinates, makes no provider call and leaves the positive cache as it is.
\<close>

theorem positive_cache_hit:
  "(composed_addresses search_depth addr_snips = pre @ a # post \<and>
    search_loop geocode (length addr_snips) 0 pre [] self = (Completed w1, self1) \<and>
    discovered_addrs self1 a = Some (lat, lng) \<longrightarrow>
      attempt geocode a (fidelity_check (length pre) (length addr_snips) w1) self1 =
        (Returned (lat, lng, fidelity_check (length pre) (length addr_snips) w1), self1) \<and>
      geolocate geocode search_depth addr_snips self =
        (Inr (lat, lng, fidelity_check (length pre) (length addr_snips) w1), self1)) \<and>
   (geolocate geocode search_depth addr_snips self = (Inr (lat', lng', w), self') \<longrightarrow>
      (\<exists>w' self''. geolocate geocode' search_depth addr_snips self' = (Inr (lat', lng', w'), self'') \<and>
         queries self'' = queries self' \<and> discovered_addrs self'' = discovered_addrs self'))"
proof (intro conjI impI)
  assume h: "composed_addresses search_depth addr_snips = pre @ a # post \<and>
    search_loop geocode (length addr_snips) 0 pre [] self = (Completed w1, self1) \<and>
    discovered_addrs self1 a = Some (lat, lng)"
  then show "attempt geocode a (fidelity_check (length pre) (length addr_snips) w1) self1 =
        (Returned (lat, lng, fidelity_check (length pre) (length addr_snips) w1), self1)"
    by (simp add: attempt_def)
  from h geolocate_reach[of search_depth addr_snips pre a post geocode self w1 self1]
  show "geolocate geocode search_depth addr_snips self =
        (Inr (lat, lng, fidelity_check (length pre) (length addr_snips) w1), self1)"
    by (simp add: search_loop_hit after_loop_simps)
next
  assume "geolocate geocode search_depth addr_snips self = (Inr (lat', lng', w), self')"
  from geolocate_again[OF this]
  show "\<exists>w' self''. geolocate geocode' search_depth addr_snips self' = (Inr (lat', lng', w'), self'') \<and>
         queries self'' = queries self' \<and> discovered_addrs self'' = discovered_addrs self'" .
qed

theorem positive_cache_hit_witness:
  "composed_addresses 2 [''a'', ''b''] = [''a''] @ ''a, b'' # [''b''] \<and>
   search_loop (\<lambda>h q. Results []) (length [''a'', ''b'']) 0 [''a''] []
     \<lparr>discovered_addrs = [''a, b'' \<mapsto> (Num 1, Num 2)], no_result_list = [], queries = []\<rparr> =
     (Completed (no_result_warning ''a''),
      \<lparr>discovered_addrs = [''a, b'' \<mapsto> (Num 1, Num 2)], no_result_list = [''a''], queries = [''a'']\<rparr>) \<and>
   discovered_addrs
      \<lparr>discovered_addrs = [''a, b'' \<mapsto> (Num 1, Num 2)], no_result_list = [''a''], queries = [''a'']\<rparr>
      ''a, b'' = Some (Num 1, Num 2) \<and>
   geolocate (\<lambda>h q. Results []) 2 [''a'', ''b'']
     \<lparr>discovered_addrs = [''a, b'' \<mapsto> (Num 1, Num 2)], no_result_list = [], queries = []\<rparr> =
     (Inr (Num 1, Num 2, no_result_warning ''a''),
      \<lparr>discovered_addrs = [''a, b'' \<mapsto> (Num 1, Num 2)], no_result_list = [''a''], queries = [''a'']\<rparr>) \<and>
   (\<exists>w' self''. geolocate (\<lambda>h q. Raises) 2 [''a'', ''b'']
     \<lparr>discovered_addrs = [''a, b'' \<mapsto> (Num 1, Num 2)], no_result_list = [''a''], queries = [''a'']\<rparr> =
     (Inr (Num 1, Num 2, w'), self'') \<and> queries self'' = [''a''])"
proof -
  let ?g = "\<lambda>(h::string list) (q::string). Results []"
  let ?s = "\<lparr>discovered_addrs = [''a, b'' \<mapsto> (Num 1, Num 2)], no_result_list = [], queries = []\<rparr>"
  let ?s1 = "\<lparr>discovered_addrs = [''a, b'' \<mapsto> (Num 1, Num 2)], no_result_list = [''a''], queries = [''a'']\<rparr>"
  have h1: "composed_addresses 2 [''a'', ''b''] = [''a''] @ ''a, b'' # [''b'']"
    by (simp add: run_simps)
  have h2: "search_loop ?g (length [''a'', ''b'']) 0 [''a''] [] ?s = (Completed (no_result_warning ''a''), ?s1)"
    by (simp add: run_simps)
  have h3: "discovered_addrs ?s1 ''a, b'' = Some (Num 1, Num 2)" by simp
  note inst = positive_cache_hit[of 2 "[''a'', ''b'']" "[''a'']" "''a, b''" "[''b'']" ?g ?s
      "no_result_warning ''a''" ?s1 "Num 1" "Num 2" "Num 1" "Num 2" "no_result_warning ''a''" ?s1
      "\<lambda>h q. Raises"]
  from inst[THEN conjunct1] h1 h2 h3
  have run: "geolocate ?g 2 [''a'', ''b''] ?s = (Inr (Num 1, Num 2, no_result_warning ''a''), ?s1)"
    by (simp add: fidelity_check_def past_threshold_def)
  from inst[THEN conjunct2] run
  have "\<exists>w' self''. geolocate (\<lambda>h q. Raises) 2 [''a'', ''b''] ?s1 = (Inr (Num 1, Num 2, w'), self'')
     \<and> queries self'' = [''a'']"
    by auto
  with h1 h2 h3 run show ?thesis by blast
qed








lemma search_loop_distinct:
  "search_loop geocode n i cs w self = (r, self') \<Longrightarrow> distinct (no_result_list self) \<Longrightarrow>
   distinct (no_result_list self')"
proof (induction cs arbitrary: i w self)
  case Nil
  then show ?case by simp
next
  case (Cons a cs)
  show ?case
  proof (cases rule: search_loop_cases[where self = self and a = a and geocode = geocode])
    case (hit lat lng)
    with Cons.prems show ?thesis by (simp add: search_loop_hit)
  next
    case skip
    with Cons.prems Cons.IH show ?thesis by (simp add: search_loop_skip)
  next
    case raises
    with Cons.prems show ?thesis by (auto simp: search_loop_raises)
  next
    case no_result
    with Cons.prems
    have "search_loop geocode n (Suc i) cs (fidelity_check i n w @ no_result_warning a)
       (self\<lparr>queries := queries self @ [a], no_result_list := no_result_list self @ [a]\<rparr>)
       = (r, self')"
      by (simp add: search_loop_no_result)
    from Cons.IH[OF this] Cons.prems(2) no_result(2) show ?thesis
      by simp
  next
    case (found loc others)
    with Cons.prems show ?thesis
      by (auto simp: search_loop_found)
  qed
qed

text \<open>
  Claim C8, as amended. Inside the loop a failure is recorded only for an address that is
  not yet in the negative cache, so a call that does not run out of candidates keeps a
  duplicate-free negative cache duplicate-free. A call that runs out of candidates appends
  the last candidate once more (line 171), although it is in the list already: the list
  then ends with a duplicate, and is duplicate-free without its last entry.
\<close>

theorem no_result_list_duplicates:
  assumes "distinct (no_result_list self)"
  shows "let candidates = composed_addresses search_depth addr_snips;
             self' = snd (geolocate geocode search_depth addr_snips self)
         in if candidates \<noteq> [] \<and>
               (\<exists>w. fst (search_loop geocode (length addr_snips) 0 candidates [] self) = Completed w)
            then distinct (butlast (no_result_list self')) \<and>
                 last (no_result_list self') = last candidates \<and>
                 last candidates \<in> set (butlast (no_result_list self')) \<and>
                 \<not> distinct (no_result_list self')
            else distinct (no_result_list self')"
proof -
  let ?cs = "composed_addresses search_depth addr_snips"
  obtain r s1 where loop: "search_loop geocode (length addr_snips) 0 ?cs [] self = (r, s1)"
    by (cases "search_loop geocode (length addr_snips) 0 ?cs [] self")
  from search_loop_distinct[OF loop assms] have d: "distinct (no_result_list s1)" .
  show ?thesis
  proof (cases r)
    case (Returned res)
    with loop d show ?thesis by (simp add: geolocate_unfold after_loop_simps)
  next
    case (Raised e)
    with loop d show ?thesis by (simp add: geolocate_unfold after_loop_simps)
  next
    case (Completed w)
    show ?thesis
    proof (cases "?cs = []")
      case True
      with loop d Completed show ?thesis by (simp add: geolocate_unfold after_loop_simps)
    next
      case False
      from search_loop_Completed[OF loop[unfolded Completed]] False
      have "last ?cs \<in> set (no_result_list s1)" using last_in_set by blast 
      with False loop d Completed show ?thesis
        by (auto simp: geolocate_unfold after_loop_simps split: list.splits)
    qed
  qed
qed

theorem no_result_list_duplicates_witness:
  "distinct (no_result_list
      \<lparr>discovered_addrs = Map.empty, no_result_list = [''c''], queries = []\<rparr>) \<and>
   fst (search_loop (\<lambda>h q. if q = ''d'' then Results [(Num 3, Num 4)] else Results [])
          (length [''b'', ''d'']) 0 (composed_addresses 1 [''b'', ''d'']) []
          \<lparr>discovered_addrs = Map.empty, no_result_list = [''c''], queries = []\<rparr>) =
     Returned (Num 3, Num 4, no_result_warning ''b'') \<and>
   no_result_list (snd (geolocate (\<lambda>h q. if q = ''d'' then Results [(Num 3, Num 4)] else Results [])
          1 [''b'', ''d''] \<lparr>discovered_addrs = Map.empty, no_result_list = [''c''], queries = []\<rparr>)) =
     [''c'', ''b''] \<and>
   distinct (no_result_list (snd (geolocate
          (\<lambda>h q. if q = ''d'' then Results [(Num 3, Num 4)] else Results [])
          1 [''b'', ''d''] \<lparr>discovered_addrs = Map.empty, no_result_list = [''c''], queries = []\<rparr>)))"
  using no_result_list_duplicates[of
      "\<lparr>discovered_addrs = Map.empty, no_result_list = [''c''], queries = []\<rparr>" 1 "[''b'', ''d'']"
      "\<lambda>h q. if q = ''d'' then Results [(Num 3, Num 4)] else Results []"]
  by (simp add: run_simps)

text \<open>
  The claim as stated fails: from empty caches, one snippet \<open>x\<close> and a provider without
  result leave the negative cache \<open>[x, x]\<close>.
\<close>

theorem no_result_list_duplicates_counterexample:
  "distinct (no_result_list \<lparr>discovered_addrs = Map.empty, no_result_list = [], queries = []\<rparr>) \<and>
   no_result_list (snd (geolocate (\<lambda>h q. Results []) 1 [''x'']
     \<lparr>discovered_addrs = Map.empty, no_result_list = [], queries = []\<rparr>)) = [''x'', ''x''] \<and>
   \<not> distinct (no_result_list (snd (geolocate (\<lambda>h q. Results []) 1 [''x'']
     \<lparr>discovered_addrs = Map.empty, no_result_list = [], queries = []\<rparr>)))"
  by (simp add: run_simps)

subsection \<open>The warning that a call returns\<close>

lemma fidelity_check_append: "fidelity_check i n w = w @ fidelity_check i n []"
  by (simp add: fidelity_check_def)

lemma pieces_Cons:
  "concat (map (\<lambda>j. f (i + j) @ (m # ms) ! j) [0..<Suc (length ms)]) =
   f i @ m @ concat (map (\<lambda>j. f (Suc i + j) @ ms ! j) [0..<length ms])"
proof -
  have "[0..<Suc (length ms)] = 0 # map Suc [0..<length ms]"
    by (simp add: upt_conv_Cons map_Suc_upt del: upt_Suc)
  then show ?thesis by (simp add: comp_def del: upt_Suc)
qed

lemma search_loop_warnings:
  "search_loop geocode n i cs w self = (r, self') \<Longrightarrow>
   \<exists>msgs. (\<forall>j < length msgs. j < length cs \<and> (msgs ! j = [] \<or> msgs ! j = no_result_warning (cs ! j))) \<and>
     (case r of
        Returned res \<Rightarrow> length msgs < length cs \<and>
          snd (snd res) = w @ concat (map (\<lambda>j. fidelity_check (i + j) n [] @ msgs ! j) [0..<length msgs])
               @ fidelity_check (i + length msgs) n []
      | Completed w' \<Rightarrow> length msgs = length cs \<and>
          w' = w @ concat (map (\<lambda>j. fidelity_check (i + j) n [] @ msgs ! j) [0..<length msgs])
      | Raised e \<Rightarrow> True)"
proof (induction cs arbitrary: i w self)
  case Nil
  then show ?case by auto
next
  case (Cons a cs)
  let ?P = "\<lambda>i cs w msgs. (\<forall>j < length msgs. j < length cs \<and> (msgs ! j = [] \<or> msgs ! j = no_result_warning (cs ! j))) \<and>
     (case r of
        Returned res \<Rightarrow> length msgs < length cs \<and>
          snd (snd res) = w @ concat (map (\<lambda>j. fidelity_check (i + j) n [] @ msgs ! j) [0..<length msgs])
               @ fidelity_check (i + length msgs) n []
      | Completed w' \<Rightarrow> length msgs = length cs \<and>
          w' = w @ concat (map (\<lambda>j. fidelity_check (i + j) n [] @ msgs ! j) [0..<length msgs])
      | Raised e \<Rightarrow> True)"
  have step: "?P i (a # cs) w (m # msgs)"
    if "?P (Suc i) cs (fidelity_check i n w @ m) msgs" and "m = [] \<or> m = no_result_warning a" for m msgs
  proof -
    have 1: "\<forall>j < length (m # msgs). j < length (a # cs) \<and>
        ((m # msgs) ! j = [] \<or> (m # msgs) ! j = no_result_warning ((a # cs) ! j))"
      using that by (auto simp: nth_Cons split: nat.splits)
    have 2: "fidelity_check i n w @ m @ concat (map (\<lambda>j. fidelity_check (Suc i + j) n [] @ msgs ! j) [0..<length msgs])
       = w @ concat (map (\<lambda>j. fidelity_check (i + j) n [] @ (m # msgs) ! j) [0..<length (m # msgs)])"
      using pieces_Cons[of "\<lambda>j. fidelity_check j n []" i m msgs] fidelity_check_append[of i n w]
      by simp
    show ?thesis
    proof (cases r)
      case (Returned res)
      with that 1 2 show ?thesis by simp
    next
      case (Raised e)
      with 1 show ?thesis by simp
    next
      case (Completed w')
      with that 1 2 show ?thesis by simp
    qed
  qed
  show ?case
  proof (cases rule: search_loop_cases[where self = self and a = a and geocode = geocode])
    case (hit lat lng)
    with Cons.prems have "?P i (a # cs) w []"
      by (auto simp: search_loop_hit fidelity_check_append[of i n w])
    then show ?thesis by blast
  next
    case skip
    with Cons.prems have "search_loop geocode n (Suc i) cs (fidelity_check i n w @ []) self = (r, self')"
      by (simp add: search_loop_skip)
    from Cons.IH[OF this] obtain msgs where "?P (Suc i) cs (fidelity_check i n w @ []) msgs" by blast
    from step[OF this] show ?thesis by blast
  next
    case raises
    with Cons.prems have "?P i (a # cs) w []" by (auto simp: search_loop_raises)
    then show ?thesis by blast
  next
    case no_result
    with Cons.prems
    have "search_loop geocode n (Suc i) cs (fidelity_check i n w @ no_result_warning a)
       (self\<lparr>queries := queries self @ [a], no_result_list := no_result_list self @ [a]\<rparr>)
       = (r, self')"
      by (simp add: search_loop_no_result)
    from Cons.IH[OF this] obtain msgs where "?P (Suc i) cs (fidelity_check i n w @ no_result_warning a) msgs" by blast
    from step[OF this] show ?thesis by blast
  next
    case (found loc others)
    with Cons.prems have "?P i (a # cs) w []"
      by (auto simp: search_loop_found fidelity_check_append[of i n w])
    then show ?thesis by blast
  qed
qed

lemma snippets_of_candidates: "composed_addresses search_depth addr_snips \<noteq> [] \<Longrightarrow> addr_snips \<noteq> []"
  using composed_addresses_Nil by blast

text \<open>
  Claim C5, as amended. The fallback text is appended to the end of the warnings
  accumulated so far each time a candidate whose 0-based index exceeds \<open>2^(N-1)\<close> is
  evaluated, not only the first time. The warning that a call returns is the concatenation,
  over the candidates evaluated in order, of the fallback text (when the index of the
  candidate exceeds \<open>2^(N-1)\<close>) followed by the candidate's "No result found" message
  (when there is one); the candidate at which the call returns contributes the fallback
  text only, and a call that runs out of candidates ends the warning with "Search Failed!;".
\<close>

theorem fallback_warning_every_time:
  assumes "geolocate geocode search_depth addr_snips self = (Inr (lat, lng, w), self')"
  shows "\<exists>msgs. length msgs \<le> length (composed_addresses search_depth addr_snips) \<and>
     (\<forall>j < length msgs. msgs ! j = [] \<or>
        msgs ! j = no_result_warning (composed_addresses search_depth addr_snips ! j)) \<and>
     w = concat (map (\<lambda>j. (if 2 ^ (length addr_snips - 1) < j then fallback_warning else []) @ msgs ! j)
                   [0..<length msgs]) @
         (if length msgs < length (composed_addresses search_depth addr_snips)
          then (if 2 ^ (length addr_snips - 1) < length msgs then fallback_warning else [])
          else ''Search Failed!;'')"
proof -
  let ?cs = "composed_addresses search_depth addr_snips"
  let ?n = "length addr_snips"
  obtain r s1 where loop: "search_loop geocode ?n 0 ?cs [] self = (r, s1)"
    by (cases "search_loop geocode ?n 0 ?cs [] self")
  from assms loop have ne: "?cs \<noteq> []"
    by (cases r) (auto simp: geolocate_unfold after_loop_simps)
  with snippets_of_candidates have "?n \<noteq> 0" by auto
  then have fc: "fidelity_check j ?n [] = (if 2 ^ (?n - 1) < j then fallback_warning else [])" for j
    by (simp add: fidelity_check_def past_threshold_def)
  from search_loop_warnings[OF loop] obtain msgs where
    m: "\<forall>j < length msgs. j < length ?cs \<and> (msgs ! j = [] \<or> msgs ! j = no_result_warning (?cs ! j))"
    and r: "case r of
        Returned res \<Rightarrow> length msgs < length ?cs \<and>
          snd (snd res) = [] @ concat (map (\<lambda>j. fidelity_check (0 + j) ?n [] @ msgs ! j) [0..<length msgs])
               @ fidelity_check (0 + length msgs) ?n []
      | Completed w' \<Rightarrow> length msgs = length ?cs \<and>
          w' = [] @ concat (map (\<lambda>j. fidelity_check (0 + j) ?n [] @ msgs ! j) [0..<length msgs])
      | Raised e \<Rightarrow> True"
    by blast
  show ?thesis
  proof (cases r)
    case (Returned res)
    with assms loop have "res = (lat, lng, w)" by (simp add: geolocate_unfold after_loop_simps)
    with Returned r m show ?thesis
      by (intro exI[of _ msgs]) (simp add: fc)
  next
    case (Raised e)
    with assms loop show ?thesis by (simp add: geolocate_unfold after_loop_simps)
  next
    case (Completed w')
    with assms loop ne have "w = w' @ ''Search Failed!;''" by (simp add: geolocate_unfold after_loop_simps)
    with Completed r m show ?thesis
      by (intro exI[of _ msgs]) (simp add: fc)
  qed
qed

theorem fallback_warning_every_time_witness:
  "geolocate (\<lambda>h q. Results []) 3 [''a'', ''b'', ''c'']
      \<lparr>discovered_addrs = [''c'' \<mapsto> (Num 1, Num 2)],
        no_result_list = [''a'', ''a, b'', ''a, c'', ''a, b, c'', ''b''], queries = []\<rparr> =
   (Inr (Num 1, Num 2, fallback_warning @ no_result_warning ''b, c'' @ fallback_warning),
    \<lparr>discovered_addrs = [''c'' \<mapsto> (Num 1, Num 2)],
      no_result_list = [''a'', ''a, b'', ''a, c'', ''a, b, c'', ''b'', ''b, c''],
      queries = [''b, c'']\<rparr>) \<and>
   (\<exists>msgs. length msgs \<le> length (composed_addresses 3 [''a'', ''b'', ''c'']) \<and>
     (\<forall>j < length msgs. msgs ! j = [] \<or>
        msgs ! j = no_result_warning (composed_addresses 3 [''a'', ''b'', ''c''] ! j)) \<and>
     fallback_warning @ no_result_warning ''b, c'' @ fallback_warning =
       concat (map (\<lambda>j. (if 2 ^ (length [''a'', ''b'', ''c''] - 1) < j then fallback_warning else [])
                     @ msgs ! j) [0..<length msgs]) @
         (if length msgs < length (composed_addresses 3 [''a'', ''b'', ''c''])
          then (if 2 ^ (length [''a'', ''b'', ''c''] - 1) < length msgs then fallback_warning else [])
          else ''Search Failed!;''))"
proof -
  have run: "geolocate (\<lambda>h q. Results []) 3 [''a'', ''b'', ''c'']
      \<lparr>discovered_addrs = [''c'' \<mapsto> (Num 1, Num 2)],
        no_result_list = [''a'', ''a, b'', ''a, c'', ''a, b, c'', ''b''], queries = []\<rparr> =
   (Inr (Num 1, Num 2, fallback_warning @ no_result_warning ''b, c'' @ fallback_warning),
    \<lparr>discovered_addrs = [''c'' \<mapsto> (Num 1, Num 2)],
      no_result_list = [''a'', ''a, b'', ''a, c'', ''a, b, c'', ''b'', ''b, c''],
      queries = [''b, c'']\<rparr>)"
    by (simp add: run_simps)
  from fallback_warning_every_time[OF run] run show ?thesis by blast
qed

text \<open>
  The claim as stated fails: with three snippets, depth 3, empty caches and a provider
  without result, the returned warning holds the fallback text twice (for the candidates
  of index 5 and 6), and not at its front.
\<close>

theorem fallback_warning_once_counterexample:
  "fst (geolocate (\<lambda>h q. Results []) 3 [''a'', ''b'', ''c'']
      \<lparr>discovered_addrs = Map.empty, no_result_list = [], queries = []\<rparr>) =
   Inr (NaN, NaN,
      no_result_warning ''a'' @ no_result_warning ''a, b'' @ no_result_warning ''a, c'' @
      no_result_warning ''a, b, c'' @ no_result_warning ''b'' @
      fallback_warning @ no_result_warning ''b, c'' @
      fallback_warning @ no_result_warning ''c'' @ ''Search Failed!;'') \<and>
   occurrences fallback_warning
     (no_result_warning ''a'' @ no_result_warning ''a, b'' @ no_result_warning ''a, c'' @
      no_result_warning ''a, b, c'' @ no_result_warning ''b'' @
      fallback_warning @ no_result_warning ''b, c'' @
      fallback_warning @ no_result_warning ''c'' @ ''Search Failed!;'') = 2 \<and>
   \<not> prefix fallback_warning
     (no_result_warning ''a'' @ no_result_warning ''a, b'' @ no_result_warning ''a, c'' @
      no_result_warning ''a, b, c'' @ no_result_warning ''b'' @
      fallback_warning @ no_result_warning ''b, c'' @
      fallback_warning @ no_result_warning ''c'' @ ''Search Failed!;'')"
  by (simp add: run_simps)

text \<open>
  Claim C6, as amended. For a row with exactly 3 snippets (threshold \<open>2^2 = 4\<close>),
  evaluating a candidate of 0-based index 5 or more appends the fallback text to the
  warnings accumulated so far before the candidate is looked up, and this happens for each
  such candidate that is evaluated.
\<close>

theorem fallback_warning_three_snippets:
  assumes "length addr_snips = 3" and "5 \<le> attempt_index"
  shows "search_loop geocode (length addr_snips) attempt_index (a # rest) w self =
    (case attempt geocode a (w @ fallback_warning) self of
       (Completed w', self') \<Rightarrow>
          search_loop geocode (length addr_snips) (Suc attempt_index) rest w' self'
     | (Returned res, self') \<Rightarrow> (Returned res, self')
     | (Raised e, self') \<Rightarrow> (Raised e, self'))"
  using assms
  by (simp add: search_loop.simps(2) fidelity_check_def past_threshold_def
      split: prod.splits loop_exit.splits)

theorem fallback_warning_three_snippets_witness:
  "length [''a'', ''b'', ''c''] = 3 \<and> (5::nat) \<le> 5 \<and>
   drop 5 (composed_addresses 3 [''a'', ''b'', ''c'']) = [''b, c'', ''c''] \<and>
   search_loop (\<lambda>h q. Results []) (length [''a'', ''b'', ''c'']) 5 (''b, c'' # [''c'']) []
      \<lparr>discovered_addrs = [''c'' \<mapsto> (Num 1, Num 2)], no_result_list = [], queries = []\<rparr> =
   (Returned (Num 1, Num 2, fallback_warning @ no_result_warning ''b, c'' @ fallback_warning),
      \<lparr>discovered_addrs = [''c'' \<mapsto> (Num 1, Num 2)], no_result_list = [''b, c''],
        queries = [''b, c'']\<rparr>)"
proof -
  have h1: "length [''a'', ''b'', ''c''] = 3" by simp
  have h2: "(5::nat) \<le> 5" by simp
  have cs: "drop 5 (composed_addresses 3 [''a'', ''b'', ''c'']) = [''b, c'', ''c'']"
    by (simp add: run_simps)
  have next_one: "search_loop (\<lambda>h q. Results []) (length [''a'', ''b'', ''c'']) (Suc 5) [''c'']
      (fallback_warning @ no_result_warning ''b, c'')
      \<lparr>discovered_addrs = [''c'' \<mapsto> (Num 1, Num 2)], no_result_list = [''b, c''],
        queries = [''b, c'']\<rparr> =
    (Returned (Num 1, Num 2, fallback_warning @ no_result_warning ''b, c'' @ fallback_warning),
      \<lparr>discovered_addrs = [''c'' \<mapsto> (Num 1, Num 2)], no_result_list = [''b, c''],
        queries = [''b, c'']\<rparr>)"
    by (simp add: search_loop_hit fidelity_check_def past_threshold_def)
  from fallback_warning_three_snippets[OF h1 h2, of "\<lambda>h q. Results []" "''b, c''" "[''c'']" "[]"
      "\<lparr>discovered_addrs = [''c'' \<mapsto> (Num 1, Num 2)], no_result_list = [], queries = []\<rparr>"]
    next_one cs
  show ?thesis
    by (simp add: attempt_def)
qed

text \<open>
  The claim as stated fails twice. The candidate of index 4 (\<open>b\<close>) is evaluated without
  the fallback text: with the first four candidates in the negative cache and \<open>b\<close> in
  the positive cache the call returns an empty warning. And the text is not added once for
  the row: with the first five candidates in the negative cache and a provider without
  result the returned warning holds it twice.
\<close>

theorem fallback_warning_three_snippets_counterexample:
  "composed_addresses 3 [''a'', ''b'', ''c''] ! 4 = ''b'' \<and>
   geolocate (\<lambda>h q. Results []) 3 [''a'', ''b'', ''c'']
      \<lparr>discovered_addrs = [''b'' \<mapsto> (Num 1, Num 2)],
        no_result_list = [''a'', ''a, b'', ''a, c'', ''a, b, c''], queries = []\<rparr> =
   (Inr (Num 1, Num 2, []),
      \<lparr>discovered_addrs = [''b'' \<mapsto> (Num 1, Num 2)],
        no_result_list = [''a'', ''a, b'', ''a, c'', ''a, b, c''], queries = []\<rparr>) \<and>
   fst (geolocate (\<lambda>h q. Results []) 3 [''a'', ''b'', ''c'']
      \<lparr>discovered_addrs = Map.empty,
        no_result_list = [''a'', ''a, b'', ''a, c'', ''a, b, c'', ''b''], queries = []\<rparr>) =
   Inr (NaN, NaN, fallback_warning @ no_result_warning ''b, c'' @
                  fallback_warning @ no_result_warning ''c'' @ ''Search Failed!;'') \<and>
   occurrences fallback_warning
     (fallback_warning @ no_result_warning ''b, c'' @
      fallback_warning @ no_result_warning ''c'' @ ''Search Failed!;'') = 2"
  by (simp add: run_simps)

section \<open>The candidate sequence\<close>

subsection \<open>The tuples of lines 120 and 121\<close>

lemma filter_Nil_subseqs: "filter (\<lambda>ys. ys = []) (subseqs xs) = [[]]"
  by (induction xs) (simp_all add: Let_def filter_map comp_def)

lemma combinations_subseqs: "combinations xs r = filter (\<lambda>ys. length ys = r) (subseqs xs)"
proof (induction xs r rule: combinations.induct)
  case (1 xs)
  show ?case by (simp add: filter_Nil_subseqs)
next
  case (2 r)
  show ?case by simp
next
  case (3 x xs r)
  then show ?case by (simp add: Let_def filter_map comp_def)
qed

lemma distinct_subseqs: "distinct xs \<Longrightarrow> distinct (subseqs xs)"
  using distinct_set_subseqs[of xs] by (simp add: distinct_map)

lemma set_combinations: "set (combinations xs r) = {ys. subseq ys xs \<and> length ys = r}"
  by (auto simp: combinations_subseqs)

lemma distinct_combinations: "distinct xs \<Longrightarrow> distinct (combinations xs r)"
  by (simp add: combinations_subseqs distinct_subseqs)

lemma tuples_upto_Suc:
  "concat (map (\<lambda>depth. combinations xs (depth + 1)) [0..<Suc k]) =
   concat (map (\<lambda>depth. combinations xs (depth + 1)) [0..<k]) @ combinations xs (Suc k)"
  by simp

lemma set_tuples_upto:
  "set (concat (map (\<lambda>depth. combinations xs (depth + 1)) [0..<k])) =
   {ys. subseq ys xs \<and> 1 \<le> length ys \<and> length ys \<le> k}"
  by (induction k) (auto simp: set_combinations)

lemma distinct_tuples_upto:
  "distinct xs \<Longrightarrow> distinct (concat (map (\<lambda>depth. combinations xs (depth + 1)) [0..<k]))"
proof (induction k)
  case 0
  show ?case by simp
next
  case (Suc k)
  have "set (concat (map (\<lambda>depth. combinations xs (depth + 1)) [0..<k])) \<inter> set (combinations xs (Suc k)) = {}"
    unfolding set_tuples_upto by (auto simp: set_combinations)
  with Suc distinct_combinations[of xs "Suc k"] show ?case
    unfolding tuples_upto_Suc by simp
qed

lemma set_snippet_tuples:
  "set (snippet_tuples d xs) = {ys. subseq ys xs \<and> 1 \<le> length ys \<and> length ys \<le> nat d}"
  unfolding snippet_tuples_def by (rule set_tuples_upto)

lemma distinct_snippet_tuples: "distinct xs \<Longrightarrow> distinct (snippet_tuples d xs)"
  unfolding snippet_tuples_def by (rule distinct_tuples_upto)

text \<open>Positions: for distinct snippets \<open>index\<close> inverts \<open>nth\<close>.\<close>

lemma index_nth: "distinct xs \<Longrightarrow> i < length xs \<Longrightarrow> index xs (xs ! i) = i"
proof (induction xs arbitrary: i)
  case Nil
  then show ?case by simp
next
  case (Cons x xs)
  then show ?case by (cases i) auto
qed

lemma min_of_Min: "zs \<noteq> [] \<Longrightarrow> min_of zs = Min (set zs)"
proof (induction zs rule: min_of.induct)
  case 1
  then show ?case by simp
next
  case (2 x)
  show ?case by simp
next
  case (3 x y ys)
  then show ?case by (simp add: min.commute min.left_commute)
qed

lemma max_of_Max: "zs \<noteq> [] \<Longrightarrow> max_of zs = Max (set zs)"
proof (induction zs rule: max_of.induct)
  case 1
  then show ?case by simp
next
  case (2 x)
  show ?case by simp
next
  case (3 x y ys)
  then show ?case by (simp add: max.commute max.left_commute)
qed

lemma nths_cong_below: "(\<And>i. i < length xs \<Longrightarrow> i \<in> A \<longleftrightarrow> i \<in> B) \<Longrightarrow> nths xs A = nths xs B"
  unfolding nths_def by (rule arg_cong[where f = "map fst"], rule filter_cong) (auto simp: set_zip)

lemma nth_in_nths: "distinct xs \<Longrightarrow> i < length xs \<Longrightarrow> xs ! i \<in> set (nths xs A) \<longleftrightarrow> i \<in> A"
  by (auto simp: set_nths nth_eq_iff_index_eq)

subsection \<open>Tuples and the positions of their members\<close>

lemma positions_nths:
  assumes "distinct xs" "subseq ys xs"
  shows "nths xs {i. i < length xs \<and> xs ! i \<in> set ys} = ys"
proof -
  from assms(2) obtain N where ys: "ys = nths xs N" by (auto simp: subseq_conv_nths)
  have "nths xs {i. i < length xs \<and> xs ! i \<in> set (nths xs N)} = nths xs N"
    by (rule nths_cong_below) (simp add: nth_in_nths[OF assms(1)])
  with ys show ?thesis by simp
qed

lemma positions_of_nths:
  assumes "distinct xs" "J \<subseteq> {..<length xs}"
  shows "{i. i < length xs \<and> xs ! i \<in> set (nths xs J)} = J"
  using assms by (auto simp: nth_in_nths)

lemma card_positions:
  assumes "distinct xs" "subseq ys xs"
  shows "card {i. i < length xs \<and> xs ! i \<in> set ys} = length ys"
proof -
  let ?I = "{i. i < length xs \<and> xs ! i \<in> set ys}"
  have "length ys = length (nths xs ?I)" by (simp add: positions_nths[OF assms])
  also have "\<dots> = card {i. i < length xs \<and> i \<in> ?I}" by (rule length_nths)
  also have "{i. i < length xs \<and> i \<in> ?I} = ?I" by auto
  finally show ?thesis by simp
qed

lemma index_image:
  assumes "distinct xs" "set ys \<subseteq> set xs"
  shows "index xs ` set ys = {i. i < length xs \<and> xs ! i \<in> set ys}"
proof (intro set_eqI iffI)
  fix i assume "i \<in> index xs ` set ys"
  then obtain y where y: "y \<in> set ys" "i = index xs y" by auto
  with assms(2) have "y \<in> set xs" by auto
  then obtain j where "j < length xs" "xs ! j = y" by (auto simp: in_set_conv_nth)
  with y index_nth[OF assms(1), of j] show "i \<in> {i. i < length xs \<and> xs ! i \<in> set ys}" by auto
next
  fix i assume "i \<in> {i. i < length xs \<and> xs ! i \<in> set ys}"
  then have "i < length xs" "xs ! i \<in> set ys" by auto
  with index_nth[OF assms(1), of i] show "i \<in> index xs ` set ys" by force
qed

lemma subseq_set_subset: "subseq ys xs \<Longrightarrow> set ys \<subseteq> set xs"
  by (auto simp: subseq_conv_nths dest: in_set_nthsD)

text \<open>
  Line 122 is safe: every tuple has a member, and its members are snippets, so neither
  \<open>min\<close>, \<open>max\<close> nor \<open>index\<close> can raise there.
\<close>

lemma snippet_tuples_members:
  "ys \<in> set (snippet_tuples d xs) \<Longrightarrow> ys \<noteq> [] \<and> set ys \<subseteq> set xs"
  using subseq_set_subset[of ys xs] by (auto simp: set_snippet_tuples)

lemma sort_key_of_positions:
  assumes "distinct xs" "subseq ys xs" "ys \<noteq> []"
  shows "sort_key_of xs ys =
    (Min {i. i < length xs \<and> xs ! i \<in> set ys}, Max {i. i < length xs \<and> xs ! i \<in> set ys})"
  using assms index_image[OF assms(1) subseq_set_subset[OF assms(2)]]
  by (simp add: sort_key_of_def min_of_Min max_of_Max)

lemma set_sorted_tuples:
  "set (sorted_tuples d xs) = {ys. subseq ys xs \<and> 1 \<le> length ys \<and> length ys \<le> nat d}"
  by (simp add: sorted_tuples_def set_snippet_tuples)

lemma distinct_sorted_tuples: "distinct xs \<Longrightarrow> distinct (sorted_tuples d xs)"
  by (simp add: sorted_tuples_def distinct_snippet_tuples)

lemma sorted_sorted_tuples: "sorted (map (sort_key_of xs) (sorted_tuples d xs))"
  by (simp add: sorted_tuples_def)

lemma candidates_by_positions:
  assumes d: "distinct addr_snips"
  shows "\<exists>Is. composed_addresses search_depth addr_snips = map (\<lambda>I. join '', '' (nths addr_snips I)) Is \<and>
     distinct Is \<and>
     set Is = {I. I \<subseteq> {..<length addr_snips} \<and> 1 \<le> card I \<and>
                  int (card I) \<le> min search_depth (int (length addr_snips))} \<and>
     sorted_wrt (\<lambda>I J. Min I < Min J \<or> (Min I = Min J \<and> Max I \<le> Max J)) Is"
proof -
  let ?xs = addr_snips
  let ?ts = "sorted_tuples search_depth ?xs"
  let ?pos = "\<lambda>ys. {i. i < length ?xs \<and> ?xs ! i \<in> set ys}"
  let ?Is = "map ?pos ?ts"
  have mem: "subseq ys ?xs \<and> 1 \<le> length ys \<and> length ys \<le> nat search_depth" if "ys \<in> set ?ts" for ys
    using that by (simp add: set_sorted_tuples)
  have inv: "nths ?xs (?pos ys) = ys" if "ys \<in> set ?ts" for ys
    using positions_nths[OF d] mem[OF that] by blast
  have 1: "composed_addresses search_depth ?xs = map (\<lambda>I. join '', '' (nths ?xs I)) ?Is"
    by (simp add: composed_addresses_def inv cong: map_cong)
  have "inj_on ?pos (set ?ts)"
    by (rule inj_on_inverseI[where g = "nths ?xs"]) (rule inv)
  with distinct_sorted_tuples[OF d] have 2: "distinct ?Is"
    by (simp add: distinct_map)
  have 3: "set ?Is = {I. I \<subseteq> {..<length ?xs} \<and> 1 \<le> card I \<and>
                  int (card I) \<le> min search_depth (int (length ?xs))}" (is "_ = ?S")
  proof (intro set_eqI iffI)
    fix I assume "I \<in> set ?Is"
    then obtain ys where ys: "ys \<in> set ?ts" "I = ?pos ys" by auto
    from mem[OF ys(1)] have s: "subseq ys ?xs" and l: "1 \<le> length ys" "length ys \<le> nat search_depth"
      by simp_all
    from s have "length ys \<le> length ?xs" by (rule list_emb_length)
    with l card_positions[OF d s] ys(2) show "I \<in> ?S" by auto
  next
    fix I assume "I \<in> ?S"
    then have I: "I \<subseteq> {..<length ?xs}" "1 \<le> card I" "int (card I) \<le> search_depth" by auto
    let ?ys = "nths ?xs I"
    have "{i. i < length ?xs \<and> i \<in> I} = I" using I(1) by auto
    then have "length ?ys = card I" by (simp add: length_nths)
    moreover have "subseq ?ys ?xs" by (auto simp: subseq_conv_nths)
    ultimately have "?ys \<in> set ?ts" using I(2,3) by (simp add: set_sorted_tuples)
    moreover have "?pos ?ys = I" by (rule positions_of_nths[OF d I(1)])
    ultimately show "I \<in> set ?Is" by force
  qed
  have key: "sort_key_of ?xs ys = (Min (?pos ys), Max (?pos ys))" if "ys \<in> set ?ts" for ys
    using mem[OF that] by (intro sort_key_of_positions[OF d]) auto
  have "sorted_wrt (\<lambda>x y. sort_key_of ?xs x \<le> sort_key_of ?xs y) ?ts"
    using sorted_sorted_tuples[of ?xs search_depth] by (simp add: sorted_map)
  then have "sorted_wrt (\<lambda>x y. Min (?pos x) < Min (?pos y) \<or>
        (Min (?pos x) = Min (?pos y) \<and> Max (?pos x) \<le> Max (?pos y))) ?ts"
    by (rule sorted_wrt_mono_rel[rotated]) (auto simp: key)
  then have 4: "sorted_wrt (\<lambda>I J. Min I < Min J \<or> (Min I = Min J \<and> Max I \<le> Max J)) ?Is"
    by (simp add: sorted_wrt_map)
  from 1 2 3 4 show ?thesis by blast
qed

lemma candidates_three:
  assumes "distinct [a, b, c]"
  shows "composed_addresses 3 [a, b, c] =
    [a, a @ '', '' @ b, a @ '', '' @ c, a @ '', '' @ b @ '', '' @ c, b, b @ '', '' @ c, c]"
  using assms
  by (auto simp: composed_addresses_def sorted_tuples_def snippet_tuples_def sort_key_of_def upt_rec)

text \<open>
  Claim C1. For distinct snippets and any search depth \<open>D\<close>, the candidate sequence
  is the list of the joins (with ", ") of the snippets at the positions \<open>I\<close>, in their
  original order, for a list \<open>Is\<close> of position sets that holds every subset of the
  positions with between 1 and \<open>min D N\<close> members exactly once, and is sorted by
  smallest position first, largest position second. In particular for three distinct
  snippets \<open>a, b, c\<close> and depth 3 the sequence is \<open>a\<close>, \<open>a, b\<close>, \<open>a, c\<close>,
  \<open>a, b, c\<close>, \<open>b\<close>, \<open>b, c\<close>, \<open>c\<close>: the first three candidates are as the
  claim says and every candidate without \<open>a\<close> comes after them.
\<close>

theorem candidate_sequence:
  "(distinct addr_snips \<longrightarrow>
     (\<exists>Is. composed_addresses search_depth addr_snips =
              map (\<lambda>I. join '', '' (nths addr_snips I)) Is \<and>
           distinct Is \<and>
           set Is = {I. I \<subseteq> {..<length addr_snips} \<and> 1 \<le> card I \<and>
                        int (card I) \<le> min search_depth (int (length addr_snips))} \<and>
           sorted_wrt (\<lambda>I J. Min I < Min J \<or> (Min I = Min J \<and> Max I \<le> Max J)) Is)) \<and>
   (distinct [a, b, c] \<longrightarrow>
      composed_addresses 3 [a, b, c] =
        [a, a @ '', '' @ b, a @ '', '' @ c, a @ '', '' @ b @ '', '' @ c, b, b @ '', '' @ c, c])"
  using candidates_by_positions[of addr_snips search_depth] candidates_three[of a b c]
  by blast

theorem candidate_sequence_witness:
  "distinct [''a'', ''b'', ''c''] \<and>
   (\<exists>Is. composed_addresses 2 [''a'', ''b'', ''c''] =
            map (\<lambda>I. join '', '' (nths [''a'', ''b'', ''c''] I)) Is \<and>
         distinct Is \<and>
         set Is = {I. I \<subseteq> {..<length [''a'', ''b'', ''c'']} \<and> 1 \<le> card I \<and>
                      int (card I) \<le> min 2 (int (length [''a'', ''b'', ''c'']))} \<and>
         sorted_wrt (\<lambda>I J. Min I < Min J \<or> (Min I = Min J \<and> Max I \<le> Max J)) Is) \<and>
   composed_addresses 2 [''a'', ''b'', ''c''] = [''a'', ''a, b'', ''a, c'', ''b'', ''b, c'', ''c''] \<and>
   composed_addresses 3 [''a'', ''b'', ''c''] =
     [''a'', ''a, b'', ''a, c'', ''a, b, c'', ''b'', ''b, c'', ''c'']"
proof -
  have h: "distinct [''a'', ''b'', ''c'']" by simp
  have two: "composed_addresses 2 [''a'', ''b'', ''c''] = [''a'', ''a, b'', ''a, c'', ''b'', ''b, c'', ''c'']"
    by (simp add: run_simps)
  note inst = candidate_sequence[of "[''a'', ''b'', ''c'']" 2 "''a''" "''b''" "''c''"]
  from inst[THEN conjunct1] h have general: "\<exists>Is. composed_addresses 2 [''a'', ''b'', ''c''] =
            map (\<lambda>I. join '', '' (nths [''a'', ''b'', ''c''] I)) Is \<and>
         distinct Is \<and>
         set Is = {I. I \<subseteq> {..<length [''a'', ''b'', ''c'']} \<and> 1 \<le> card I \<and>
                      int (card I) \<le> min 2 (int (length [''a'', ''b'', ''c'']))} \<and>
         sorted_wrt (\<lambda>I J. Min I < Min J \<or> (Min I = Min J \<and> Max I \<le> Max J)) Is"
    by blast
  from inst[THEN conjunct2] h have three: "composed_addresses 3 [''a'', ''b'', ''c''] =
     [''a'', ''a, b'', ''a, c'', ''a, b, c'', ''b'', ''b, c'', ''c'']"
    by simp
  from h general two three show ?thesis by blast
qed

subsection \<open>Joining is injective on snippets without the separator\<close>

lemma separator_cancel_aux:
  assumes ne: "c1 \<noteq> c2" and x: "\<not> sublist [c1, c2] x"
    and eq: "x = y @ us" "us @ [c1, c2] @ A = [c1, c2] @ B"
  shows "us = []"
proof (cases us)
  case Nil
  then show ?thesis .
next
  case (Cons u us')
  with eq(2) have u: "u = c1" and rest: "us' @ [c1, c2] @ A = c2 # B" by simp_all
  show ?thesis
  proof (cases us')
    case Nil
    with rest ne show ?thesis by simp
  next
    case (Cons u' us'')
    with rest have "u' = c2" by simp
    with Cons \<open>us = u # us'\<close> u eq(1) have "x = y @ [c1, c2] @ us''" by simp
    then have "sublist [c1, c2] x" unfolding sublist_def by blast
    with x show ?thesis by contradiction
  qed
qed

lemma separator_cancel:
  assumes ne: "c1 \<noteq> c2" and x: "\<not> sublist [c1, c2] x" and y: "\<not> sublist [c1, c2] y"
    and eq: "x @ [c1, c2] @ A = y @ [c1, c2] @ B"
  shows "x = y \<and> A = B"
proof -
  from eq obtain us where
    "(x = y @ us \<and> us @ [c1, c2] @ A = [c1, c2] @ B) \<or> (x @ us = y \<and> [c1, c2] @ A = us @ [c1, c2] @ B)"
    unfolding append_eq_append_conv2 by blast
  then show ?thesis
  proof
    assume h: "x = y @ us \<and> us @ [c1, c2] @ A = [c1, c2] @ B"
    with separator_cancel_aux[OF ne x, of y us A B] have "us = []" by blast
    with h show ?thesis by simp
  next
    assume h: "x @ us = y \<and> [c1, c2] @ A = us @ [c1, c2] @ B"
    with separator_cancel_aux[OF ne y, of x us B A] have "us = []" by simp
    with h show ?thesis by simp
  qed
qed

lemma join_sep_inj:
  assumes ne: "c1 \<noteq> c2"
  shows "xs \<noteq> [] \<Longrightarrow> ys \<noteq> [] \<Longrightarrow> \<forall>x \<in> set xs. \<not> sublist [c1, c2] x \<Longrightarrow>
    \<forall>y \<in> set ys. \<not> sublist [c1, c2] y \<Longrightarrow> join [c1, c2] xs = join [c1, c2] ys \<Longrightarrow> xs = ys"
proof (induction "[c1, c2]" xs arbitrary: ys rule: join.induct)
  case 1
  then show ?case by simp
next
  case (2 x)
  show ?case
  proof (cases ys rule: remdups_adj.cases[case_names Nil One More])
    case Nil
    with 2 show ?thesis by simp
  next
    case (One y)
    with 2 show ?thesis by simp
  next
    case (More y y' ys')
    with 2 have "x = y @ [c1, c2] @ join [c1, c2] (y' # ys')" by simp
    then have "sublist [c1, c2] x" unfolding sublist_def by blast
    with 2 show ?thesis by simp
  qed
next
  case (3 x x' xs')
  show ?case
  proof (cases ys rule: remdups_adj.cases[case_names Nil One More])
    case Nil
    with 3 show ?thesis by simp
  next
    case (One y)
    with 3 have "y = x @ [c1, c2] @ join [c1, c2] (x' # xs')" by simp
    then have "sublist [c1, c2] y" unfolding sublist_def by blast
    with 3 One show ?thesis by simp
  next
    case (More y y' ys')
    with 3 have eq: "x @ [c1, c2] @ join [c1, c2] (x' # xs') = y @ [c1, c2] @ join [c1, c2] (y' # ys')"
      by simp
    from 3 More have "\<not> sublist [c1, c2] x" "\<not> sublist [c1, c2] y" by simp_all
    from separator_cancel[OF ne this eq]
    have xy: "x = y" and rest: "join [c1, c2] (x' # xs') = join [c1, c2] (y' # ys')" by simp_all
    from 3 More have "x' # xs' = y' # ys'"
      by (intro "3.hyps") (simp_all add: rest)
    with xy More show ?thesis by simp
  qed
qed

text \<open>
  Claim C9, as amended. Line 125 joins the tuples and removes nothing. When the snippets
  are pairwise distinct and none of them contains the separator ", ", no two candidates
  are equal.
\<close>

theorem candidates_distinct:
  assumes "distinct addr_snips" and "\<forall>s \<in> set addr_snips. \<not> sublist '', '' s"
  shows "distinct (composed_addresses search_depth addr_snips)"
proof -
  let ?ts = "sorted_tuples search_depth addr_snips"
  have parts: "ys \<noteq> [] \<and> (\<forall>y \<in> set ys. \<not> sublist '', '' y)" if "ys \<in> set ?ts" for ys
  proof -
    from that have "subseq ys addr_snips" "1 \<le> length ys" by (simp_all add: set_sorted_tuples)
    with subseq_set_subset[of ys addr_snips] assms(2) show ?thesis by auto
  qed
  have "inj_on (join '', '') (set ?ts)"
  proof (rule inj_onI)
    fix xs ys assume "xs \<in> set ?ts" "ys \<in> set ?ts" "join '', '' xs = join '', '' ys"
    with parts[of xs] parts[of ys] show "xs = ys"
      by (intro join_sep_inj[of "CHR '',''" "CHR '' ''"]) simp_all
  qed
  with distinct_sorted_tuples[OF assms(1)] show ?thesis
    by (simp add: composed_addresses_def distinct_map)
qed

theorem candidates_distinct_witness:
  "distinct [''a'', ''b''] \<and> \<not> sublist '', '' ''a'' \<and> \<not> sublist '', '' ''b'' \<and>
   composed_addresses 2 [''a'', ''b''] = [''a'', ''a, b'', ''b''] \<and>
   distinct (composed_addresses 2 [''a'', ''b''])"
proof -
  have h1: "distinct [''a'', ''b'']" by simp
  have h2: "\<not> sublist '', '' ''a''" "\<not> sublist '', '' ''b''" by (simp_all add: sublist_Cons_right)
  then have h3: "\<forall>s \<in> set [''a'', ''b'']. \<not> sublist '', '' s" by simp
  have cs: "composed_addresses 2 [''a'', ''b''] = [''a'', ''a, b'', ''b'']" by (simp add: run_simps)
  from candidates_distinct[OF h1 h3, of 2] h1 h2 cs show ?thesis by simp
qed

text \<open>
  The claim as stated fails: the distinct snippets \<open>a\<close>, \<open>b\<close> and \<open>a, b\<close> give the
  candidate \<open>a, b\<close> twice, once from the tuple \<open>(a, b)\<close> and once from the third
  snippet alone.
\<close>

theorem candidates_distinct_counterexample:
  "distinct [''a'', ''b'', ''a, b''] \<and>
   composed_addresses 2 [''a'', ''b'', ''a, b''] =
     [''a'', ''a, b'', ''a, a, b'', ''b'', ''b, a, b'', ''a, b''] \<and>
   \<not> distinct (composed_addresses 2 [''a'', ''b'', ''a, b''])"
  by (simp add: run_simps)

end
